theory Spec2Isabelle
  imports Main "HOL-Library.Sublist"
begin

section \<open>Personal data: the redactor of \<open>filtered_logger.py\<close>\<close>

text \<open>
  The module redacts the values of named fields in log messages with
  \<^verbatim>\<open>re.sub\<close>. The functions of the module are embedded as they are written; the part
  of Python's \<^verbatim>\<open>re\<close> module that \<^verbatim>\<open>filter_datum\<close> calls is embedded below, for the
  pattern syntax listed at \<open>parse_loop\<close>. Strings are lists of characters, one
  \<^typ>\<open>char\<close> for each character of a Python \<^verbatim>\<open>str\<close> (code points below 256).
\<close>

subsection \<open>Outcomes\<close>

text \<open>
  A call either returns a value (\<open>Inr\<close>) or does not (\<open>Inl\<close>). \<open>ReError\<close> is the
  exception \<^verbatim>\<open>re.error\<close>. \<open>NotModelled\<close> is not a behaviour of the program: it marks
  a pattern or a replacement template written in a part of the syntax of \<^verbatim>\<open>re\<close> that
  this embedding does not interpret, and nothing is said about such inputs.
\<close>

datatype failure = ReError | NotModelled

subsection \<open>Patterns\<close>

abbreviation backslash :: char where
  "backslash \<equiv> CHR 0x5C"

abbreviation newline :: char where
  "newline \<equiv> CHR 0x0A"

text \<open>
  A parsed pattern is a sequence of items. The flag of a repetition says whether it is
  greedy; a group carries its number.
\<close>

datatype regex =
    Lit char
  | Dot
  | Opt bool regex
  | Star bool regex
  | Plus bool regex
  | Grp nat "regex list"

fun is_repeat :: "regex \<Rightarrow> bool" where
  "is_repeat (Opt g r) = True"
| "is_repeat (Star g r) = True"
| "is_repeat (Plus g r) = True"
| "is_repeat r = False"

text \<open>Whether an item can match the empty string.\<close>

fun nullable :: "regex \<Rightarrow> bool" where
  "nullable (Lit c) = False"
| "nullable Dot = False"
| "nullable (Opt g r) = True"
| "nullable (Star g r) = True"
| "nullable (Plus g r) = nullable r"
| "nullable (Grp n rs) = list_all nullable rs"

definition is_ascii_alnum :: "char \<Rightarrow> bool" where
  "is_ascii_alnum c =
     (let n = (of_char c :: nat)
      in (48 \<le> n \<and> n \<le> 57) \<or> (65 \<le> n \<and> n \<le> 90) \<or> (97 \<le> n \<and> n \<le> 122))"

text \<open>The characters that the parser of \<^verbatim>\<open>re\<close> does not read as themselves:
  \<^verbatim>\<open>. \ [ { ( ) * + ? ^ $ |\<close>.\<close>

definition special_char :: "char \<Rightarrow> bool" where
  "special_char c = (c \<in> set ''.[{()*+?^$|'' \<or> c = backslash)"

definition mk_repeat :: "char \<Rightarrow> bool \<Rightarrow> regex \<Rightarrow> regex" where
  "mk_repeat q g r = (if q = CHR ''?'' then Opt g r else if q = CHR ''*'' then Star g r else Plus g r)"

text \<open>
  The parser of \<^verbatim>\<open>re\<close>, for flags 0, on the following syntax: a character that is not
  special is a literal; \<^verbatim>\<open>.\<close> is any character but a newline; \<^verbatim>\<open>(\<close> ... \<^verbatim>\<open>)\<close> is a
  capturing group, numbered in the order of the opening parentheses; \<^verbatim>\<open>?\<close>, \<^verbatim>\<open>*\<close> and
  \<^verbatim>\<open>+\<close> repeat the item before them, lazily when followed by \<^verbatim>\<open>?\<close>; a backslash
  before a character that is no ASCII letter or digit makes it a literal. The errors
  are those of \<^verbatim>\<open>re\<close>: a backslash at the end of the pattern, a repetition with nothing
  before it, a repetition of a repetition, a parenthesis without its partner.

  Not interpreted (\<open>NotModelled\<close>): character sets \<^verbatim>\<open>[\<close>, counted repetition \<^verbatim>\<open>{\<close>,
  anchors \<^verbatim>\<open>^\<close> \<^verbatim>\<open>$\<close>, alternation \<^verbatim>\<open>|\<close>, extension groups \<^verbatim>\<open>(?\<close>, a repetition
  followed by \<^verbatim>\<open>+\<close> (an error before Python 3.11, possessive since), a backslash
  before an ASCII letter or digit, and the repetition of an item that can match the
  empty string.

  \<open>stk\<close> holds, for each group still open, its number and the items read before it,
  \<open>acc\<close> the items of the innermost sequence in reverse, \<open>g\<close> the next group number.
\<close>

fun parse_loop :: "(nat \<times> regex list) list \<Rightarrow> regex list \<Rightarrow> nat \<Rightarrow> string \<Rightarrow> failure + regex list" where
  "parse_loop stk acc g [] = (if stk = [] then Inr (rev acc) else Inl ReError)"
| "parse_loop stk acc g (c # cs) =
     (if c = backslash then
        (case cs of
           [] \<Rightarrow> Inl ReError
         | e # cs' \<Rightarrow>
             if is_ascii_alnum e then Inl NotModelled
             else parse_loop stk (Lit e # acc) g cs')
      else if c = CHR ''('' then
        (case cs of
           [] \<Rightarrow> Inl ReError
         | e # cs' \<Rightarrow>
             if e = CHR ''?'' then Inl NotModelled
             else parse_loop ((g, acc) # stk) [] (Suc g) cs)
      else if c = CHR '')'' then
        (case stk of
           [] \<Rightarrow> Inl ReError
         | (n, outer) # stk' \<Rightarrow> parse_loop stk' (Grp n (rev acc) # outer) g cs)
      else if c = CHR ''.'' then parse_loop stk (Dot # acc) g cs
      else if c = CHR ''?'' \<or> c = CHR ''*'' \<or> c = CHR ''+'' then
        (case acc of
           [] \<Rightarrow> Inl ReError
         | r # acc' \<Rightarrow>
             if is_repeat r then Inl ReError
             else if nullable r then Inl NotModelled
             else
               (case cs of
                  [] \<Rightarrow> parse_loop stk (mk_repeat c True r # acc') g cs
                | e # cs' \<Rightarrow>
                    if e = CHR ''+'' then Inl NotModelled
                    else if e = CHR ''?'' then parse_loop stk (mk_repeat c False r # acc') g cs'
                    else parse_loop stk (mk_repeat c True r # acc') g cs))
      else if special_char c then Inl NotModelled
      else parse_loop stk (Lit c # acc) g cs)"

definition re_compile :: "string \<Rightarrow> failure + regex list" where
  "re_compile pattern = parse_loop [] [] 1 pattern"

subsection \<open>Matching\<close>

text \<open>
  \<open>ms r s\<close> lists what can remain of \<open>s\<close> after \<open>r\<close> has matched at its front, in the
  order in which the backtracking matcher of \<^verbatim>\<open>re\<close> tries the alternatives: a greedy
  repetition tries one more round first, a lazy one tries to stop first (\<open>prio\<close>). The
  repetitions only continue after a round that consumed something.
\<close>

definition prio :: "bool \<Rightarrow> string list \<Rightarrow> string \<Rightarrow> string list" where
  "prio greedy more s = (if greedy then more @ [s] else s # more)"

fun rank :: "regex \<Rightarrow> nat" where
  "rank (Plus g r) = 1"
| "rank r = 0"

function ms :: "regex \<Rightarrow> string \<Rightarrow> string list"
  and ms_seq :: "regex list \<Rightarrow> string \<Rightarrow> string list" where
  "ms (Lit c) s = (case s of [] \<Rightarrow> [] | x # xs \<Rightarrow> if x = c then [xs] else [])"
| "ms Dot s = (case s of [] \<Rightarrow> [] | x # xs \<Rightarrow> if x = newline then [] else [xs])"
| "ms (Grp n rs) s = ms_seq rs s"
| "ms (Opt g r) s = prio g (ms r s) s"
| "ms (Star g r) s =
     prio g (concat (map (ms (Star g r)) (filter (\<lambda>t. length t < length s) (ms r s)))) s"
| "ms (Plus g r) s = concat (map (ms (Star g r)) (ms r s))"
| "ms_seq [] s = [s]"
| "ms_seq (r # rs) s = concat (map (ms_seq rs) (ms r s))"
  by pat_completeness auto

termination
  by (relation "inv_image (less_than <*lex*> less_than <*lex*> less_than)
        (\<lambda>x. case x of Inl (r, s) \<Rightarrow> (size r, rank r, length s)
                       | Inr (rs, s) \<Rightarrow> (size_list size rs, 0, length s))")
     auto

declare ms.simps(5) [simp del]

text \<open>
  \<^verbatim>\<open>search\<close>: the leftmost position at which the pattern matches, and there the first
  match in the matcher's order. \<open>adv\<close> is the matcher's flag \<^verbatim>\<open>must_advance\<close>: at the
  first position tried, an empty match is refused. The result is the text skipped
  before the match and the text left after it.
\<close>

fun re_search :: "regex list \<Rightarrow> string \<Rightarrow> bool \<Rightarrow> (string \<times> string) option" where
  "re_search r [] adv =
     (case find (\<lambda>t. \<not> (adv \<and> t = [])) (ms_seq r []) of
        Some t \<Rightarrow> Some ([], t)
      | None \<Rightarrow> None)"
| "re_search r (x # xs) adv =
     (case find (\<lambda>t. \<not> (adv \<and> t = x # xs)) (ms_seq r (x # xs)) of
        Some t \<Rightarrow> Some ([], t)
      | None \<Rightarrow> map_option (\<lambda>(pre, t). (x # pre, t)) (re_search r xs False))"

text \<open>What remains after a match is a suffix of the text.\<close>

lemma ms_suffix:
  "t \<in> set (ms r s) \<Longrightarrow> suffix t s"
  "t \<in> set (ms_seq rs s) \<Longrightarrow> suffix t s"
proof (induction r s and rs s arbitrary: t and t rule: ms_ms_seq.induct)
  case (1 c s)
  then show ?case by (auto split: list.splits if_splits simp: suffix_Cons)
next
  case (2 s)
  then show ?case by (auto split: list.splits if_splits simp: suffix_Cons)
next
  case (3 n rs s)
  then show ?case by simp
next
  case (4 g r s)
  then show ?case by (auto simp: prio_def split: if_splits)
next
  case (5 g r s)
  from "5.prems" have "t = s \<or> (\<exists>u \<in> set (ms r s). length u < length s \<and> t \<in> set (ms (Star g r) u))"
    by (subst (asm) ms.simps(5)) (auto simp: prio_def split: if_splits)
  then show ?case
  proof
    assume "t = s"
    then show ?thesis by simp
  next
    assume "\<exists>u \<in> set (ms r s). length u < length s \<and> t \<in> set (ms (Star g r) u)"
    then obtain u where u: "u \<in> set (ms r s)" "length u < length s" "t \<in> set (ms (Star g r) u)"
      by blast
    from u have "suffix t u" by (intro "5.IH"(2)) simp_all
    moreover from u have "suffix u s" by (intro "5.IH"(1))
    ultimately show ?thesis by (rule suffix_order.trans)
  qed
next
  case (6 g r s)
  from "6.prems" obtain u where u: "u \<in> set (ms r s)" "t \<in> set (ms (Star g r) u)"
    by auto
  from u have "suffix t u" by (intro "6.IH"(2))
  moreover from u have "suffix u s" by (intro "6.IH"(1))
  ultimately show ?case by (rule suffix_order.trans)
next
  case (7 s)
  then show ?case by simp
next
  case (8 r rs s)
  from "8.prems" obtain u where u: "u \<in> set (ms r s)" "t \<in> set (ms_seq rs u)"
    by auto
  from u have "suffix t u" by (intro "8.IH"(2))
  moreover from u have "suffix u s" by (intro "8.IH"(1))
  ultimately show ?case by (rule suffix_order.trans)
qed

lemma find_Some_set: "find P xs = Some x \<Longrightarrow> x \<in> set xs \<and> P x"
  by (induction xs) (auto split: if_splits)

lemma match_here_split:
  assumes "find (\<lambda>u. \<not> (adv \<and> u = s)) (ms_seq r s) = Some t"
  shows "\<exists>m. s = m @ t \<and> (adv \<longrightarrow> m \<noteq> [])"
proof -
  from find_Some_set [OF assms] have "t \<in> set (ms_seq r s)" and ne: "\<not> (adv \<and> t = s)"
    by simp_all
  then have "suffix t s" by (simp add: ms_suffix(2))
  then obtain m where "s = m @ t" by (auto simp: suffix_def)
  with ne show ?thesis by auto
qed

lemma re_search_split:
  "re_search r s adv = Some (pre, t) \<Longrightarrow>
     \<exists>m. s = pre @ m @ t \<and> (adv \<and> pre = [] \<longrightarrow> m \<noteq> [])"
proof (induction s arbitrary: adv pre t)
  case Nil
  then have found: "find (\<lambda>u. \<not> (adv \<and> u = [])) (ms_seq r []) = Some t" and "pre = []"
    by (auto split: option.splits)
  with match_here_split [OF found] show ?case by auto
next
  case (Cons x xs)
  show ?case
  proof (cases "find (\<lambda>u. \<not> (adv \<and> u = x # xs)) (ms_seq r (x # xs))")
    case None
    with Cons.prems obtain pre' where
      "re_search r xs False = Some (pre', t)" "pre = x # pre'"
      by auto
    with Cons.IH [of False pre' t] show ?thesis by auto
  next
    case (Some u)
    with Cons.prems have "pre = []" "t = u" by auto
    with match_here_split [OF Some] show ?thesis by auto
  qed
qed

text \<open>
  The loop of \<^verbatim>\<open>re.sub\<close> for a replacement without backslash, which is inserted as it
  is: search from the end of the last match, copy the text skipped, insert the
  replacement, and go on behind the match; after an empty match the next one must
  advance. What follows the last match is copied (Python 3.7 and later).
\<close>

function sub_loop :: "regex list \<Rightarrow> string \<Rightarrow> string \<Rightarrow> bool \<Rightarrow> string" where
  "sub_loop r repl s adv =
     (case re_search r s adv of
        None \<Rightarrow> s
      | Some (pre, t) \<Rightarrow> pre @ repl @ sub_loop r repl t (length pre + length t = length s))"
  by pat_completeness auto

termination
proof (relation "measure (\<lambda>(r, repl, s, adv). 2 * length s + (if adv then 0 else 1))", goal_cases)
  case 1
  show ?case by simp
next
  case (2 r repl s adv x2 pre t)
  then have "re_search r s adv = Some (pre, t)" by simp
  from re_search_split [OF this] obtain m where
    "s = pre @ m @ t" "adv \<and> pre = [] \<longrightarrow> m \<noteq> []"
    by blast
  then show ?case by (cases adv; cases m) auto
qed

declare sub_loop.simps [simp del]

text \<open>
  \<^verbatim>\<open>re.sub(pattern, repl, string)\<close>: the pattern is compiled first. A replacement with
  a backslash is a template (group references, escapes), which is not interpreted.
\<close>

definition re_sub :: "string \<Rightarrow> string \<Rightarrow> string \<Rightarrow> failure + string" where
  "re_sub pattern repl s =
     (case re_compile pattern of
        Inl e \<Rightarrow> Inl e
      | Inr r \<Rightarrow> if backslash \<in> set repl then Inl NotModelled else Inr (sub_loop r repl s False))"

subsection \<open>\<^verbatim>\<open>filter_datum\<close>\<close>

text \<open>
  \<^verbatim>\<open>
  for field in fields:
      pattern = rf"{field}=(.*?)\{separator}"
      replacement = f'{field}={redaction}{separator}'
      message = re.sub(pattern, replacement, message)
  return message
  \<close>
  An exception of \<^verbatim>\<open>re.sub\<close> ends the loop and the call.
\<close>

fun filter_datum :: "string list \<Rightarrow> string \<Rightarrow> string \<Rightarrow> string \<Rightarrow> failure + string" where
  "filter_datum [] redaction message separator = Inr message"
| "filter_datum (field # fields) redaction message separator =
     (case re_sub (field @ ''=(.*?)'' @ [backslash] @ separator)
                  (field @ ''='' @ redaction @ separator) message of
        Inl e \<Rightarrow> Inl e
      | Inr message' \<Rightarrow> filter_datum fields redaction message' separator)"

section \<open>The formatter, the logger, the database and \<^verbatim>\<open>main\<close>\<close>

definition PII_FIELDS :: "string list" where
  "PII_FIELDS = [''name'', ''email'', ''phone'', ''ssn'', ''password'']"

subsection \<open>\<^verbatim>\<open>RedactingFormatter\<close>\<close>

text \<open>
  The class attributes, and the two attributes of an instance that \<^verbatim>\<open>__init__\<close> sets:
  its own \<^verbatim>\<open>fields\<close>, and the template that it hands to \<^verbatim>\<open>logging.Formatter.__init__\<close>.
\<close>

definition REDACTION :: string where
  "REDACTION = ''***''"

definition FORMAT :: string where
  "FORMAT = ''[HOLBERTON] %(name)s %(levelname)s %(asctime)-15s: %(message)s''"

definition SEPARATOR :: string where
  "SEPARATOR = '';''"

record RedactingFormatter =
  self_fields :: "string list"
  self_fmt :: string

definition RedactingFormatter_init :: "string list \<Rightarrow> RedactingFormatter" where
  "RedactingFormatter_init fs = \<lparr>self_fields = fs, self_fmt = FORMAT\<rparr>"

text \<open>
  \<^verbatim>\<open>
  return filter_datum(self.fields, self.REDACTION,
                      super().format(record), self.SEPARATOR)
  \<close>
  \<^verbatim>\<open>logging.Formatter.format\<close> belongs to the standard library: it is the parameter
  \<open>super_format\<close>, which renders a record with a template, or raises (\<open>None\<close>). An
  exception of either call leaves \<^verbatim>\<open>format\<close>.
\<close>

datatype format_failure = FormatterRaised | RedactorFailed failure

definition format :: "(string \<Rightarrow> 'r \<Rightarrow> string option) \<Rightarrow> RedactingFormatter \<Rightarrow> 'r \<Rightarrow> format_failure + string" where
  "format super_format self record =
     (case super_format (self_fmt self) record of
        None \<Rightarrow> Inl FormatterRaised
      | Some line \<Rightarrow>
          (case filter_datum (self_fields self) REDACTION line SEPARATOR of
             Inl e \<Rightarrow> Inl (RedactorFailed e)
           | Inr message \<Rightarrow> Inr message))"

subsection \<open>\<^verbatim>\<open>get_logger\<close>\<close>

text \<open>
  The state of \<^verbatim>\<open>logging\<close> that \<^verbatim>\<open>get_logger\<close> reads and writes: the loggers registered
  by name, each with its level, its \<^verbatim>\<open>propagate\<close> flag and its handlers. A
  \<^verbatim>\<open>StreamHandler()\<close> made without argument writes to \<^verbatim>\<open>sys.stderr\<close>.
\<close>

datatype stream = Stderr | Stdout

record StreamHandler =
  stream :: stream
  formatter :: "RedactingFormatter option"

record Logger =
  name :: string
  level :: nat
  propagate :: bool
  handlers :: "StreamHandler list"

definition NOTSET :: nat where
  "NOTSET = 0"

definition DEBUG :: nat where
  "DEBUG = 10"

definition INFO :: nat where
  "INFO = 20"

text \<open>\<^verbatim>\<open>logging.getLogger(name)\<close>: the logger registered under the name, or a new one.\<close>

definition getLogger :: "(string \<rightharpoonup> Logger) \<Rightarrow> string \<Rightarrow> Logger" where
  "getLogger loggers n =
     (case loggers n of
        Some logger \<Rightarrow> logger
      | None \<Rightarrow> \<lparr>name = n, level = NOTSET, propagate = True, handlers = []\<rparr>)"

text \<open>
  \<^verbatim>\<open>
  logger = logging.getLogger("user_data")
  logger.setLevel(logging.INFO)
  logger.propagate = False
  handler = logging.StreamHandler()
  handler.setFormatter(RedactingFormatter(PII_FIELDS))
  logger.addHandler(handler)
  return logger
  \<close>
  The logger is an object shared with the registry: the result is the logger and the
  registry that holds it. The handler is a new object, so \<^verbatim>\<open>addHandler\<close> appends it.
\<close>

definition get_logger :: "(string \<rightharpoonup> Logger) \<Rightarrow> Logger \<times> (string \<rightharpoonup> Logger)" where
  "get_logger loggers =
     (let logger = getLogger loggers ''user_data'';
          logger = logger\<lparr>level := INFO\<rparr>;
          logger = logger\<lparr>propagate := False\<rparr>;
          handler = \<lparr>stream = Stderr, formatter = None\<rparr>;
          handler = handler\<lparr>formatter := Some (RedactingFormatter_init PII_FIELDS)\<rparr>;
          logger = logger\<lparr>handlers := handlers logger @ [handler]\<rparr>
      in (logger, loggers(''user_data'' \<mapsto> logger)))"

text \<open>
  \<^verbatim>\<open>Logger.getEffectiveLevel\<close> and \<^verbatim>\<open>Logger.isEnabledFor\<close> of the standard library, with
  nothing disabled: a logger whose own level is not set takes the level of its nearest
  ancestor that has one (\<open>inherited\<close>), and a record passes when its level is not below
  that.
\<close>

definition getEffectiveLevel :: "nat \<Rightarrow> Logger \<Rightarrow> nat" where
  "getEffectiveLevel inherited logger =
     (if level logger \<noteq> NOTSET then level logger else inherited)"

definition isEnabledFor :: "nat \<Rightarrow> Logger \<Rightarrow> nat \<Rightarrow> bool" where
  "isEnabledFor inherited logger lvl = (getEffectiveLevel inherited logger \<le> lvl)"

text \<open>The registry of \<^verbatim>\<open>logging\<close> holds every logger under the logger's own name.\<close>

definition registered_by_name :: "(string \<rightharpoonup> Logger) \<Rightarrow> bool" where
  "registered_by_name loggers = (\<forall>n logger. loggers n = Some logger \<longrightarrow> name logger = n)"

subsection \<open>\<^verbatim>\<open>get_db\<close>\<close>

text \<open>
  \<^verbatim>\<open>
  password = os.environ.get("PERSONAL_DATA_DB_PASSWORD", "")
  username = os.environ.get("PERSONAL_DATA_DB_USERNAME", "root")
  host = os.environ.get("PERSONAL_DATA_DB_HOST", "localhost")
  db_name = os.environ.get("PERSONAL_DATA_DB_NAME")
  conn = mysql.connector.connect(host=host, database=db_name,
                                 user=username, password=password)
  return conn
  \<close>
  The environment is a map; \<^verbatim>\<open>get\<close> without a default gives \<^verbatim>\<open>None\<close> for a variable that
  is not set. The driver's \<^verbatim>\<open>connect\<close> is a parameter; what it returns or raises is what
  \<^verbatim>\<open>get_db\<close> returns or raises.
\<close>

record connect_args =
  host :: string
  database :: "string option"
  user :: string
  password :: string

definition environ_get :: "(string \<rightharpoonup> string) \<Rightarrow> string \<Rightarrow> string \<Rightarrow> string" where
  "environ_get environ key dflt = (case environ key of None \<Rightarrow> dflt | Some v \<Rightarrow> v)"

definition get_db :: "(connect_args \<Rightarrow> 'c) \<Rightarrow> (string \<rightharpoonup> string) \<Rightarrow> 'c" where
  "get_db connect environ =
     (let password = environ_get environ ''PERSONAL_DATA_DB_PASSWORD'' '''';
          username = environ_get environ ''PERSONAL_DATA_DB_USERNAME'' ''root'';
          host = environ_get environ ''PERSONAL_DATA_DB_HOST'' ''localhost'';
          db_name = environ ''PERSONAL_DATA_DB_NAME''
      in connect \<lparr>host = host, database = db_name, user = username, password = password\<rparr>)"

subsection \<open>\<^verbatim>\<open>main\<close>\<close>

text \<open>
  \<^verbatim>\<open>
  for row in cursor:
      message = (
          f"name={row[0]}; email={row[1]}; phone={row[2]}; "
          f"ssn={row[3]}; password={row[4]}; ip={row[5]}; "
          f"last_login={row[6]}; user_agent={row[7]};"
      )
      print(message)
  \<close>
  A row is a sequence of values and \<open>str\<close> is how a value is written in an f-string. A
  row with fewer than eight values raises \<^verbatim>\<open>IndexError\<close>; what was printed before
  stays printed. \<open>out\<close> is the standard output, a list of lines.
\<close>

datatype 'e outcome = Returned | IndexError | Raised 'e

definition row_message :: "('v \<Rightarrow> string) \<Rightarrow> 'v list \<Rightarrow> string option" where
  "row_message str row =
     (if length row < 8 then None
      else Some (''name='' @ str (row ! 0) @ ''; email='' @ str (row ! 1)
                 @ ''; phone='' @ str (row ! 2) @ ''; '' @ ''ssn='' @ str (row ! 3)
                 @ ''; password='' @ str (row ! 4) @ ''; ip='' @ str (row ! 5) @ ''; ''
                 @ ''last_login='' @ str (row ! 6) @ ''; user_agent='' @ str (row ! 7) @ '';''))"

fun print_rows :: "('v \<Rightarrow> string) \<Rightarrow> 'v list list \<Rightarrow> string list \<Rightarrow> string list \<times> 'e outcome" where
  "print_rows str [] out = (out, Returned)"
| "print_rows str (row # rows) out =
     (case row_message str row of
        None \<Rightarrow> (out, IndexError)
      | Some message \<Rightarrow> print_rows str rows (out @ [message]))"

text \<open>
  \<^verbatim>\<open>
  db = get_db()
  cursor = db.cursor()
  cursor.execute("SELECT * FROM users;")
  \<close>
  then the loop above, then \<^verbatim>\<open>cursor.close()\<close> and \<^verbatim>\<open>db.close()\<close>. The driver is a
  parameter: \<open>connect\<close> as in \<^verbatim>\<open>get_db\<close>, and \<open>execute\<close> for the rows that the cursor
  yields for a query on a connection.
\<close>

definition main :: "(connect_args \<Rightarrow> 'e + 'c) \<Rightarrow> ('c \<Rightarrow> string \<Rightarrow> 'e + 'v list list) \<Rightarrow> ('v \<Rightarrow> string)
    \<Rightarrow> (string \<rightharpoonup> string) \<Rightarrow> string list \<Rightarrow> string list \<times> 'e outcome" where
  "main connect execute str environ out =
     (case get_db connect environ of
        Inl e \<Rightarrow> (out, Raised e)
      | Inr db \<Rightarrow>
          (case execute db ''SELECT * FROM users;'' of
             Inl e \<Rightarrow> (out, Raised e)
           | Inr rows \<Rightarrow> print_rows str rows out))"

lemma get_logger_registered_by_name:
  "registered_by_name loggers \<Longrightarrow> registered_by_name (snd (get_logger loggers))"
  by (auto simp: registered_by_name_def get_logger_def getLogger_def Let_def split: option.splits)

section \<open>The redactor on literal field names\<close>

text \<open>
  For field names without special characters and a separator of one character, the
  pattern is a fixed sequence of items, and what \<^verbatim>\<open>re.sub\<close> does with it is described
  by simple functions on the text. These functions are not part of the program: each is
  proved below to agree with the embedding of \<^verbatim>\<open>re.sub\<close>, and the claims are stated on
  \<^verbatim>\<open>filter_datum\<close> itself.
\<close>

subsection \<open>The pattern of a literal field name\<close>

text \<open>
  A field name all of whose characters the parser reads as themselves, and the pattern
  that \<^verbatim>\<open>filter_datum\<close> then builds from it and a separator character.
\<close>

definition literal_name :: "string \<Rightarrow> bool" where
  "literal_name f = list_all (\<lambda>x. \<not> special_char x) f"

definition field_pattern :: "string \<Rightarrow> char \<Rightarrow> regex list" where
  "field_pattern f c = map Lit f @ [Lit CHR ''='', Grp 1 [Star False Dot], Lit c]"

text \<open>
  \<open>lazy_end c s\<close> is what follows the first \<open>c\<close> of \<open>s\<close>, when no newline comes before
  it: where the lazy group of the pattern and the separator after it stop.
  \<open>field_end f c s\<close> is what follows a match of the pattern of \<open>f\<close> at the front of \<open>s\<close>.
\<close>

fun lazy_end :: "char \<Rightarrow> string \<Rightarrow> string option" where
  "lazy_end c [] = None"
| "lazy_end c (x # xs) =
     (if x = c then Some xs else if x = newline then None else lazy_end c xs)"

definition field_end :: "string \<Rightarrow> char \<Rightarrow> string \<Rightarrow> string option" where
  "field_end f c s =
     (if prefix (f @ ''='') s then lazy_end c (drop (Suc (length f)) s) else None)"

lemma parse_loop_literals:
  "literal_name f \<Longrightarrow>
     parse_loop stk acc g (f @ rest) = parse_loop stk (rev (map Lit f) @ acc) g rest"
proof (induction f arbitrary: acc)
  case Nil
  then show ?case by simp
next
  case (Cons x f)
  then have "\<not> special_char x" and "literal_name f"
    by (simp_all add: literal_name_def)
  with Cons.IH [of "Lit x # acc"] show ?case
    by (simp add: special_char_def)
qed

lemma re_compile_field:
  assumes "literal_name f" and "\<not> is_ascii_alnum c"
  shows "re_compile (f @ ''=(.*?)'' @ [backslash] @ [c]) = Inr (field_pattern f c)"
proof -
  have "parse_loop [] (rev (map Lit f) @ []) 1 (''=(.*?)'' @ [backslash] @ [c])
          = Inr (field_pattern f c)"
    using assms(2)
    by (simp add: special_char_def mk_repeat_def field_pattern_def)
  with parse_loop_literals [OF assms(1), of "[]" "[]" 1] show ?thesis
    by (simp add: re_compile_def)
qed

lemma ms_seq_literals:
  "ms_seq (map Lit f @ rs) s = (if prefix f s then ms_seq rs (drop (length f) s) else [])"
proof (induction f arbitrary: s)
  case Nil
  then show ?case by simp
next
  case (Cons x f)
  then show ?case by (cases s) auto
qed

lemma concat_ms_seq_Nil: "concat (map (ms_seq []) xs) = xs"
  by (induction xs) simp_all

lemma lazy_dot_unfold:
  "ms (Star False Dot) s =
     s # (case s of [] \<Rightarrow> [] | x # xs \<Rightarrow> if x = newline then [] else ms (Star False Dot) xs)"
  by (subst ms.simps(5)) (simp add: prio_def split: list.splits)

lemma lazy_value_first:
  assumes "\<And>u. length u \<le> length t \<Longrightarrow> P u"
  shows "find P (concat (map (ms_seq [Lit c]) (ms (Star False Dot) t))) = lazy_end c t"
  using assms
proof (induction t)
  case Nil
  show ?case by (subst lazy_dot_unfold) simp
next
  case (Cons x xs)
  have IH: "find P (concat (map (ms_seq [Lit c]) (ms (Star False Dot) xs))) = lazy_end c xs"
    by (rule Cons.IH) (simp add: Cons.prems)
  have "P xs" by (simp add: Cons.prems)
  with IH show ?case by (subst lazy_dot_unfold) simp
qed

lemma match_field_here:
  "find (\<lambda>u. \<not> (adv \<and> u = s)) (ms_seq (field_pattern f c) s) = field_end f c s"
proof (cases "prefix (f @ ''='') s")
  case False
  then show ?thesis
    using ms_seq_literals [of "f @ ''=''" "[Grp 1 [Star False Dot], Lit c]" s]
    by (simp add: field_pattern_def field_end_def)
next
  case True
  let ?t = "drop (Suc (length f)) s"
  have "ms_seq (field_pattern f c) s = ms_seq [Grp 1 [Star False Dot], Lit c] ?t"
    using True ms_seq_literals [of "f @ ''=''" "[Grp 1 [Star False Dot], Lit c]" s]
    by (simp add: field_pattern_def)
  also have "\<dots> = concat (map (ms_seq [Lit c]) (ms (Star False Dot) ?t))"
    by (simp add: concat_ms_seq_Nil)
  finally have eq: "ms_seq (field_pattern f c) s
      = concat (map (ms_seq [Lit c]) (ms (Star False Dot) ?t))" .
  from True have "length ?t < length s"
    by (auto simp: prefix_def)
  then have "\<And>u. length u \<le> length ?t \<Longrightarrow> \<not> (adv \<and> u = s)"
    by auto
  from lazy_value_first [of ?t "\<lambda>u. \<not> (adv \<and> u = s)" c, OF this] eq True
  show ?thesis by (simp add: field_end_def)
qed


subsection \<open>One step of the substitution loop\<close>

lemma lazy_end_shorter: "lazy_end c s = Some t \<Longrightarrow> length t < length s"
  by (induction s) (auto split: if_splits)

lemma field_end_shorter: "field_end f c s = Some t \<Longrightarrow> length t < length s"
  by (auto simp: field_end_def split: if_splits dest!: lazy_end_shorter)

lemma field_end_Nil [simp]: "field_end f c [] = None"
  by (simp add: field_end_def)

lemma re_search_field_Nil: "re_search (field_pattern f c) [] adv = None"
  using match_field_here [of adv "[]" f c] by simp

lemma re_search_field_hit:
  "field_end f c s = Some t \<Longrightarrow> re_search (field_pattern f c) s adv = Some ([], t)"
  using match_field_here [of adv s f c] by (cases s) simp_all

lemma re_search_field_miss:
  "field_end f c (x # xs) = None \<Longrightarrow>
     re_search (field_pattern f c) (x # xs) adv
       = map_option (\<lambda>(pre, t). (x # pre, t)) (re_search (field_pattern f c) xs False)"
  using match_field_here [of adv "x # xs" f c] by simp

lemma sub_loop_field_Nil: "sub_loop (field_pattern f c) repl [] adv = []"
  by (subst sub_loop.simps) (simp add: re_search_field_Nil del: re_search.simps)

lemma sub_loop_field_hit:
  assumes "field_end f c s = Some t"
  shows "sub_loop (field_pattern f c) repl s adv = repl @ sub_loop (field_pattern f c) repl t False"
proof -
  from field_end_shorter [OF assms] have "length t \<noteq> length s" by simp
  then show ?thesis
    by (subst sub_loop.simps) (simp add: re_search_field_hit [OF assms] del: re_search.simps)
qed

lemma sub_loop_field_miss:
  assumes "field_end f c (x # xs) = None"
  shows "sub_loop (field_pattern f c) repl (x # xs) adv
           = x # sub_loop (field_pattern f c) repl xs False"
proof (cases "re_search (field_pattern f c) xs False")
  case None
  then show ?thesis
    by (subst sub_loop.simps, subst (2) sub_loop.simps)
       (simp add: re_search_field_miss [OF assms] del: re_search.simps)
next
  case (Some p)
  then show ?thesis
    by (subst sub_loop.simps, subst (2) sub_loop.simps)
       (simp add: re_search_field_miss [OF assms] del: re_search.simps split: prod.splits)
qed


subsection \<open>One field name on one segment\<close>

text \<open>
  A segment is the text between two separators. In a segment, a field name matches at
  the front when the name and \<^verbatim>\<open>=\<close> stand there and no newline follows in the segment;
  the substitution then keeps the text up to that \<^verbatim>\<open>=\<close> and puts the marker behind it.
  \<open>redact_segment fs M s\<close> does that at the first position of \<open>s\<close> where one of the names
  \<open>fs\<close> matches.
\<close>

definition field_here :: "string \<Rightarrow> string \<Rightarrow> bool" where
  "field_here f s = (prefix (f @ ''='') s \<and> newline \<notin> set (drop (Suc (length f)) s))"

fun redact_segment :: "string list \<Rightarrow> string \<Rightarrow> string \<Rightarrow> string" where
  "redact_segment fs M [] = []"
| "redact_segment fs M (x # xs) =
     (if \<exists>f \<in> set fs. field_here f (x # xs)
      then takeWhile (\<lambda>y. y \<noteq> CHR ''='') (x # xs) @ ''='' @ M
      else x # redact_segment fs M xs)"

lemma lazy_end_chunk:
  "c \<notin> set u \<Longrightarrow> lazy_end c (u @ c # rest) = (if newline \<in> set u then None else Some rest)"
  by (induction u) auto

lemma prefix_before_sep:
  assumes "c \<notin> set p"
  shows "prefix p (u @ c # rest) \<longleftrightarrow> prefix p u"
proof
  assume "prefix p (u @ c # rest)"
  then consider "prefix p u" | q where "p = u @ q" "prefix q (c # rest)"
    by (auto simp: prefix_append)
  then show "prefix p u"
  proof cases
    case 1
    then show ?thesis .
  next
    case 2
    with assms have "q = []" by (cases q) auto
    with 2 show ?thesis by simp
  qed
next
  assume "prefix p u"
  then show "prefix p (u @ c # rest)" by (rule prefix_prefix)
qed

lemma field_end_chunk:
  assumes "c \<notin> set chunk" and "c \<notin> set f" and "c \<noteq> CHR ''=''"
  shows "field_end f c (chunk @ c # rest) = (if field_here f chunk then Some rest else None)"
proof (cases "prefix (f @ ''='') chunk")
  case False
  with assms prefix_before_sep [of c "f @ ''=''" chunk rest] show ?thesis
    by (simp add: field_end_def field_here_def)
next
  case True
  then have len: "Suc (length f) \<le> length chunk"
    by (auto simp: prefix_def)
  from assms(1) have "c \<notin> set (drop (Suc (length f)) chunk)"
    by (auto dest: in_set_dropD)
  from lazy_end_chunk [OF this, of rest] len True assms
    prefix_before_sep [of c "f @ ''=''" chunk rest]
  show ?thesis
    by (simp add: field_end_def field_here_def)
qed

lemma takeWhile_through:
  "e \<notin> set f \<Longrightarrow> takeWhile (\<lambda>y. y \<noteq> e) (f @ e # r) = f"
  by (induction f) auto

lemma takeWhile_field:
  assumes "prefix (f @ ''='') s" and "CHR ''='' \<notin> set f"
  shows "takeWhile (\<lambda>y. y \<noteq> CHR ''='') s = f"
proof -
  from assms(1) obtain r where "s = f @ CHR ''='' # r"
    by (auto simp: prefix_def)
  with assms(2) show ?thesis
    by (simp add: takeWhile_through)
qed

lemma segment_hit:
  assumes "f \<in> set fs" and "field_here f s" and "CHR ''='' \<notin> set f"
  shows "redact_segment fs M s = f @ ''='' @ M"
proof (cases s)
  case Nil
  with assms(2) show ?thesis by (simp add: field_here_def)
next
  case (Cons x xs)
  with assms takeWhile_field [of f s] show ?thesis
    by (auto simp: field_here_def)
qed

lemma segment_miss:
  "\<forall>f \<in> set fs. \<not> field_here f (x # xs) \<Longrightarrow> redact_segment fs M (x # xs) = x # redact_segment fs M xs"
  by simp

lemma sub_loop_chunk:
  assumes "c \<notin> set chunk" and "c \<notin> set f" and "c \<noteq> CHR ''=''" and "CHR ''='' \<notin> set f"
  shows "sub_loop (field_pattern f c) (f @ ''='' @ M @ [c]) (chunk @ c # rest) adv
           = redact_segment [f] M chunk @ c # sub_loop (field_pattern f c) (f @ ''='' @ M @ [c]) rest False"
  using assms(1)
proof (induction chunk arbitrary: adv)
  case Nil
  from assms have "field_end f c (c # rest) = None"
    using field_end_chunk [of c "[]" f rest] by (simp add: field_here_def)
  then show ?case by (simp add: sub_loop_field_miss)
next
  case (Cons x xs)
  show ?case
  proof (cases "field_here f (x # xs)")
    case True
    with field_end_chunk [OF Cons.prems assms(2) assms(3), of rest]
    have "field_end f c ((x # xs) @ c # rest) = Some rest"
      by simp
    from sub_loop_field_hit [OF this] segment_hit [of f "[f]" "x # xs" M] True assms(4)
    show ?thesis by simp
  next
    case False
    with field_end_chunk [OF Cons.prems assms(2) assms(3), of rest]
    have "field_end f c ((x # xs) @ c # rest) = None"
      by simp
    then have "field_end f c (x # (xs @ c # rest)) = None" by simp
    from sub_loop_field_miss [OF this] False Cons.IH Cons.prems
    show ?thesis by simp
  qed
qed

lemma lazy_end_no_sep: "c \<notin> set s \<Longrightarrow> lazy_end c s = None"
  by (induction s) auto

lemma field_end_no_sep: "c \<notin> set s \<Longrightarrow> field_end f c s = None"
  by (auto simp: field_end_def dest: in_set_dropD intro!: lazy_end_no_sep)

lemma sub_loop_no_sep:
  "c \<notin> set s \<Longrightarrow> sub_loop (field_pattern f c) repl s adv = s"
proof (induction s arbitrary: adv)
  case Nil
  show ?case by (rule sub_loop_field_Nil)
next
  case (Cons x xs)
  then have "field_end f c (x # xs) = None" by (intro field_end_no_sep)
  from sub_loop_field_miss [OF this] Cons show ?case by simp
qed


subsection \<open>Several field names on one segment\<close>

lemma segment_set_cong: "set fs = set gs \<Longrightarrow> redact_segment fs M s = redact_segment gs M s"
  by (induction s) simp_all

lemma segment_Nil_fields [simp]: "redact_segment [] M s = s"
  by (induction s) simp_all

lemma field_here_has_eq: "field_here f s \<Longrightarrow> CHR ''='' \<in> set s"
  by (auto simp: field_here_def prefix_def)

lemma segment_no_eq: "CHR ''='' \<notin> set s \<Longrightarrow> redact_segment fs M s = s"
proof (induction s)
  case Nil
  show ?case by simp
next
  case (Cons x xs)
  then have "\<forall>f \<in> set fs. \<not> field_here f (x # xs)"
    by (auto dest: field_here_has_eq)
  with Cons show ?case by simp
qed

lemma segment_fixed:
  assumes "CHR ''='' \<notin> set M"
  shows "CHR ''='' \<notin> set u \<Longrightarrow> redact_segment fs M (u @ ''='' @ M) = u @ ''='' @ M"
proof (induction u)
  case Nil
  from assms show ?case by (simp add: segment_no_eq)
next
  case (Cons y u)
  then have "takeWhile (\<lambda>z. z \<noteq> CHR ''='') ((y # u) @ CHR ''='' # M) = y # u"
    by (intro takeWhile_through) simp
  with Cons show ?case by simp
qed

lemma segment_subset: "set (redact_segment fs M s) \<subseteq> set s \<union> set M \<union> {CHR ''=''}"
proof (induction s)
  case Nil
  show ?case by simp
next
  case (Cons x xs)
  have "set (takeWhile (\<lambda>y. y \<noteq> CHR ''='') (x # xs)) \<subseteq> set (x # xs)"
    by (auto dest: set_takeWhileD)
  with Cons show ?case by auto
qed


lemma segment_keeps_prefix:
  assumes "CHR ''='' \<notin> set k"
  shows "prefix (k @ ''='') s \<Longrightarrow> prefix (k @ ''='') (redact_segment fs M s)"
  using assms
proof (induction s arbitrary: k)
  case Nil
  then show ?case by simp
next
  case (Cons x xs)
  show ?case
  proof (cases "\<exists>f \<in> set fs. field_here f (x # xs)")
    case True
    with takeWhile_field [OF Cons.prems] show ?thesis by simp
  next
    case False
    show ?thesis
    proof (cases k)
      case Nil
      with Cons.prems False show ?thesis by simp
    next
      case (Cons y k')
      with Cons.prems have "x = y" "prefix (k' @ ''='') xs" "CHR ''='' \<notin> set k'"
        by simp_all
      with Cons.IH [of k'] False Cons show ?thesis by simp
    qed
  qed
qed

lemma same_key:
  assumes "prefix (k @ [e]) (f @ e # r)" and "e \<notin> set k" and "e \<notin> set f"
  shows "k = f"
proof -
  from assms(1) obtain r' where "f @ e # r = k @ e # r'"
    by (auto simp: prefix_def)
  then have "takeWhile (\<lambda>y. y \<noteq> e) (f @ e # r) = takeWhile (\<lambda>y. y \<noteq> e) (k @ e # r')"
    by simp
  with assms(2,3) show ?thesis by (simp add: takeWhile_through)
qed

lemma segment_reflects_prefix:
  assumes "\<forall>f \<in> set fs. CHR ''='' \<notin> set f" and "CHR ''='' \<notin> set k"
  shows "prefix (k @ ''='') (redact_segment fs M s) \<Longrightarrow> prefix (k @ ''='') s"
  using assms(2)
proof (induction s arbitrary: k)
  case Nil
  then show ?case by simp
next
  case (Cons x xs)
  show ?case
  proof (cases "\<exists>f \<in> set fs. field_here f (x # xs)")
    case True
    then obtain f where f: "f \<in> set fs" "field_here f (x # xs)" by blast
    with assms(1) have noeq: "CHR ''='' \<notin> set f" by blast
    from segment_hit [OF f noeq, of M] Cons.prems(1)
    have "prefix (k @ [CHR ''='']) (f @ CHR ''='' # M)" by simp
    from same_key [OF this Cons.prems(2) noeq] f(2) show ?thesis
      by (simp add: field_here_def)
  next
    case False
    show ?thesis
    proof (cases k)
      case Nil
      with Cons.prems False show ?thesis by simp
    next
      case (Cons y k')
      with Cons.prems False have "x = y" "prefix (k' @ ''='') (redact_segment fs M xs)"
        "CHR ''='' \<notin> set k'"
        by simp_all
      with Cons.IH [of k'] Cons show ?thesis by simp
    qed
  qed
qed

lemma drop_key: "drop (Suc (length f)) (f @ e # r) = r"
  by (induction f) simp_all

lemma set_drop_append_subset: "set (drop n (a @ b)) \<subseteq> set (drop n a) \<union> set b"
  by (auto simp: drop_append dest: in_set_dropD)

lemma set_drop_prefix_subset: "set (drop n a) \<subseteq> set (drop n (a @ b))"
  by (simp add: drop_append)

lemma segment_drop_subset:
  assumes "\<forall>f \<in> set fs. CHR ''='' \<notin> set f"
  shows "set (drop n (redact_segment fs M s)) \<subseteq> set (drop n s) \<union> set M"
proof (induction s arbitrary: n)
  case Nil
  show ?case by simp
next
  case (Cons x xs)
  show ?case
  proof (cases "\<exists>f \<in> set fs. field_here f (x # xs)")
    case True
    then obtain f where f: "f \<in> set fs" "field_here f (x # xs)" by blast
    with assms have noeq: "CHR ''='' \<notin> set f" by blast
    from f(2) obtain r where r: "x # xs = (f @ ''='') @ r"
      by (auto simp: field_here_def prefix_def)
    have a: "set (drop n ((f @ ''='') @ M)) \<subseteq> set (drop n (f @ ''='')) \<union> set M"
      by (rule set_drop_append_subset)
    have b: "set (drop n (f @ ''='')) \<subseteq> set (drop n ((f @ ''='') @ r))"
      by (rule set_drop_prefix_subset)
    have eq: "redact_segment fs M (x # xs) = (f @ ''='') @ M"
      using segment_hit [OF f noeq, of M] by simp
    from a b show ?thesis
      unfolding eq unfolding r by blast
  next
    case False
    then have eq: "redact_segment fs M (x # xs) = x # redact_segment fs M xs" by simp
    show ?thesis
    proof (cases n)
      case 0
      with Cons.IH [of 0] eq show ?thesis by auto
    next
      case (Suc m)
      with Cons.IH [of m] eq show ?thesis by simp
    qed
  qed
qed

lemma segment_keeps_newline:
  assumes "\<forall>f \<in> set fs. CHR ''='' \<notin> set f"
  shows "newline \<in> set (drop n s) \<Longrightarrow> newline \<in> set (drop n (redact_segment fs M s))"
proof (induction s arbitrary: n)
  case Nil
  then show ?case by simp
next
  case (Cons x xs)
  show ?case
  proof (cases "\<exists>f \<in> set fs. field_here f (x # xs)")
    case True
    then obtain f where f: "f \<in> set fs" "field_here f (x # xs)" by blast
    with assms have noeq: "CHR ''='' \<notin> set f" by blast
    from f(2) obtain r where r: "x # xs = (f @ ''='') @ r"
      by (auto simp: field_here_def prefix_def)
    with f(2) have clean: "newline \<notin> set r"
      by (simp add: field_here_def drop_key)
    have "set (drop n ((f @ ''='') @ r)) \<subseteq> set (drop n (f @ ''='')) \<union> set r"
      by (rule set_drop_append_subset)
    with Cons.prems clean have "newline \<in> set (drop n (f @ ''=''))"
      unfolding r by blast
    moreover have "set (drop n (f @ ''='')) \<subseteq> set (drop n ((f @ ''='') @ M))"
      by (rule set_drop_prefix_subset)
    moreover have "redact_segment fs M (x # xs) = (f @ ''='') @ M"
      using segment_hit [OF f noeq, of M] by simp
    ultimately show ?thesis by auto
  next
    case False
    then have eq: "redact_segment fs M (x # xs) = x # redact_segment fs M xs" by simp
    show ?thesis
    proof (cases n)
      case 0
      with Cons.IH [of 0] Cons.prems eq show ?thesis by auto
    next
      case (Suc m)
      with Cons.IH [of m] Cons.prems eq show ?thesis by simp
    qed
  qed
qed

lemma field_here_segment:
  assumes "\<forall>f \<in> set fs. CHR ''='' \<notin> set f" and "CHR ''='' \<notin> set g"
    and "newline \<notin> set M"
  shows "field_here g (redact_segment fs M s) \<longleftrightarrow> field_here g s"
proof
  assume "field_here g (redact_segment fs M s)"
  then show "field_here g s"
    using segment_reflects_prefix [OF assms(1,2), of M s]
      segment_keeps_newline [OF assms(1), of "Suc (length g)" s M]
    by (auto simp: field_here_def)
next
  assume "field_here g s"
  then show "field_here g (redact_segment fs M s)"
    using segment_keeps_prefix [OF assms(2), of s fs M]
      segment_drop_subset [OF assms(1), of "Suc (length g)" M s] assms(3)
    by (auto simp: field_here_def)
qed

lemma segment_one_more:
  assumes "\<forall>f \<in> set (g # fs). CHR ''='' \<notin> set f"
    and "CHR ''='' \<notin> set M" and "newline \<notin> set M"
  shows "redact_segment [g] M (redact_segment fs M s) = redact_segment (g # fs) M s"
proof (induction s)
  case Nil
  show ?case by simp
next
  case (Cons x xs)
  from assms(1) have fs: "\<forall>f \<in> set fs. CHR ''='' \<notin> set f" and g: "CHR ''='' \<notin> set g"
    by simp_all
  show ?case
  proof (cases "\<exists>f \<in> set fs. field_here f (x # xs)")
    case True
    then obtain f where f: "f \<in> set fs" "field_here f (x # xs)" by blast
    with fs have noeq: "CHR ''='' \<notin> set f" by blast
    from f(1) have f': "f \<in> set (g # fs)" by simp
    from segment_hit [OF f noeq, of M] segment_hit [OF f' f(2) noeq, of M]
      segment_fixed [OF assms(2) noeq, of "[g]"]
    show ?thesis by simp
  next
    case False
    then have eq: "redact_segment fs M (x # xs) = x # redact_segment fs M xs" by simp
    show ?thesis
    proof (cases "field_here g (x # xs)")
      case True
      with field_here_segment [OF fs g assms(3), of "x # xs"]
      have "field_here g (redact_segment fs M (x # xs))" by simp
      from segment_hit [of g "[g]", OF _ this g, of M]
        segment_hit [of g "g # fs", OF _ True g, of M]
      show ?thesis by simp
    next
      case no: False
      with field_here_segment [OF fs g assms(3), of "x # xs"] eq
      have "\<not> field_here g (x # redact_segment fs M xs)" by simp
      with no False Cons.IH show ?thesis by simp
    qed
  qed
qed

lemma segment_compose:
  assumes "\<forall>f \<in> set (fs @ gs). CHR ''='' \<notin> set f"
    and "CHR ''='' \<notin> set M" and "newline \<notin> set M"
  shows "redact_segment fs M (redact_segment gs M s) = redact_segment (fs @ gs) M s"
  using assms(1)
proof (induction fs)
  case Nil
  show ?case by simp
next
  case (Cons f fs)
  then have a: "\<forall>h \<in> set (f # fs). CHR ''='' \<notin> set h"
    and b: "\<forall>h \<in> set (f # fs @ gs). CHR ''='' \<notin> set h"
    and c: "\<forall>h \<in> set (fs @ gs). CHR ''='' \<notin> set h"
    by auto
  have "redact_segment (f # fs) M (redact_segment gs M s)
          = redact_segment [f] M (redact_segment fs M (redact_segment gs M s))"
    by (rule segment_one_more [OF a assms(2,3), symmetric])
  also have "\<dots> = redact_segment [f] M (redact_segment (fs @ gs) M s)"
    by (simp add: Cons.IH [OF c])
  also have "\<dots> = redact_segment (f # fs @ gs) M s"
    by (rule segment_one_more [OF b assms(2,3)])
  finally show ?case by simp
qed

subsection \<open>The whole message\<close>

text \<open>
  What \<^verbatim>\<open>filter_datum\<close> computes when every pattern compiles and every replacement is
  inserted as it is: one pass of the substitution loop for each field, in order.
\<close>

fun redact_fields :: "string list \<Rightarrow> string \<Rightarrow> char \<Rightarrow> string \<Rightarrow> string" where
  "redact_fields [] M c s = s"
| "redact_fields (f # fs) M c s =
     redact_fields fs M c (sub_loop (field_pattern f c) (f @ ''='' @ M @ [c]) s False)"

lemma literal_name_no_backslash: "literal_name f \<Longrightarrow> backslash \<notin> set f"
  by (auto simp: literal_name_def list_all_iff special_char_def)

lemma re_sub_literal:
  assumes "literal_name f" and "\<not> is_ascii_alnum c" and "c \<noteq> backslash"
    and "backslash \<notin> set M"
  shows "re_sub (f @ ''=(.*?)'' @ [backslash] @ [c]) (f @ ''='' @ M @ [c]) s
           = Inr (sub_loop (field_pattern f c) (f @ ''='' @ M @ [c]) s False)"
  using re_compile_field [OF assms(1,2)] literal_name_no_backslash [OF assms(1)] assms(3,4)
  by (simp add: re_sub_def)

lemma filter_datum_literal:
  assumes "\<forall>f \<in> set fs. literal_name f" and "\<not> is_ascii_alnum c" and "c \<noteq> backslash"
    and "backslash \<notin> set M"
  shows "filter_datum fs M s [c] = Inr (redact_fields fs M c s)"
  using assms(1)
proof (induction fs arbitrary: s)
  case Nil
  show ?case by simp
next
  case (Cons f fs)
  then have "literal_name f" by simp
  from re_sub_literal [OF this assms(2,3,4)] Cons show ?case
    by simp
qed

lemma redact_fields_no_sep: "c \<notin> set s \<Longrightarrow> redact_fields fs M c s = s"
  by (induction fs) (simp_all add: sub_loop_no_sep)

lemma redact_fields_segment:
  assumes "\<forall>f \<in> set fs. c \<notin> set f \<and> CHR ''='' \<notin> set f"
    and "c \<noteq> CHR ''=''" and "c \<notin> set M"
  shows "c \<notin> set chunk \<Longrightarrow>
     redact_fields fs M c (chunk @ c # rest)
       = fold (\<lambda>f. redact_segment [f] M) fs chunk @ c # redact_fields fs M c rest"
  using assms(1)
proof (induction fs arbitrary: chunk rest)
  case Nil
  show ?case by simp
next
  case (Cons f fs)
  then have f: "c \<notin> set f" "CHR ''='' \<notin> set f"
    and fs: "\<forall>f \<in> set fs. c \<notin> set f \<and> CHR ''='' \<notin> set f"
    by simp_all
  from segment_subset [of "[f]" M chunk] Cons.prems(1) assms(2,3)
  have "c \<notin> set (redact_segment [f] M chunk)" by auto
  from Cons.IH [OF this fs] sub_loop_chunk [OF Cons.prems(1) f(1) assms(2) f(2)]
  show ?case by simp
qed

lemma fold_redact_segment:
  assumes "\<forall>f \<in> set fs. CHR ''='' \<notin> set f"
    and "CHR ''='' \<notin> set M" and "newline \<notin> set M"
  shows "fold (\<lambda>f. redact_segment [f] M) fs L = redact_segment fs M L"
  using assms(1)
proof (induction fs arbitrary: L)
  case Nil
  show ?case by simp
next
  case (Cons f fs)
  then have fs: "\<forall>h \<in> set fs. CHR ''='' \<notin> set h"
    and all: "\<forall>h \<in> set (fs @ [f]). CHR ''='' \<notin> set h"
    by simp_all
  have "fold (\<lambda>f. redact_segment [f] M) (f # fs) L
          = redact_segment fs M (redact_segment [f] M L)"
    by (simp add: Cons.IH [OF fs])
  also have "\<dots> = redact_segment (fs @ [f]) M L"
    by (rule segment_compose [OF all assms(2,3)])
  also have "\<dots> = redact_segment (f # fs) M L"
    by (rule segment_set_cong) auto
  finally show ?case .
qed

lemma redact_fields_split:
  assumes "\<forall>f \<in> set fs. c \<notin> set f \<and> CHR ''='' \<notin> set f"
    and "c \<noteq> CHR ''=''" and "c \<notin> set M"
    and "CHR ''='' \<notin> set M" and "newline \<notin> set M"
    and "c \<notin> set chunk"
  shows "redact_fields fs M c (chunk @ c # rest)
           = redact_segment fs M chunk @ c # redact_fields fs M c rest"
proof -
  from assms(1) have "\<forall>f \<in> set fs. CHR ''='' \<notin> set f" by blast
  from fold_redact_segment [OF this assms(4,5)]
    redact_fields_segment [OF assms(1,2,3,6)]
  show ?thesis by simp
qed

lemma segment_idem:
  assumes "\<forall>f \<in> set fs. CHR ''='' \<notin> set f"
    and "CHR ''='' \<notin> set M" and "newline \<notin> set M"
  shows "redact_segment fs M (redact_segment fs M L) = redact_segment fs M L"
proof -
  from assms(1) have "\<forall>f \<in> set (fs @ fs). CHR ''='' \<notin> set f" by auto
  from segment_compose [OF this assms(2,3)]
  have "redact_segment fs M (redact_segment fs M L) = redact_segment (fs @ fs) M L" .
  also have "\<dots> = redact_segment fs M L"
    by (rule segment_set_cong) simp
  finally show ?thesis .
qed

lemma redact_fields_idem:
  assumes "\<forall>f \<in> set fs. c \<notin> set f \<and> CHR ''='' \<notin> set f"
    and "c \<noteq> CHR ''=''" and "c \<notin> set M"
    and "CHR ''='' \<notin> set M" and "newline \<notin> set M"
  shows "redact_fields fs M c (redact_fields fs M c s) = redact_fields fs M c s"
proof (induction "length s" arbitrary: s rule: less_induct)
  case less
  show ?case
  proof (cases "c \<in> set s")
    case False
    then show ?thesis by (simp add: redact_fields_no_sep)
  next
    case True
    then obtain chunk rest where s: "s = chunk @ c # rest" and chunk: "c \<notin> set chunk"
      by (auto dest: split_list_first)
    from assms(1) have noeq: "\<forall>f \<in> set fs. CHR ''='' \<notin> set f" by blast
    from segment_subset [of fs M chunk] chunk assms(2,3)
    have chunk': "c \<notin> set (redact_segment fs M chunk)" by auto
    from s have "length rest < length s" by simp
    then have IH: "redact_fields fs M c (redact_fields fs M c rest) = redact_fields fs M c rest"
      by (rule less.hyps)
    show ?thesis
      unfolding s
      by (simp only: redact_fields_split [OF assms chunk] redact_fields_split [OF assms chunk']
          segment_idem [OF noeq assms(4,5)] IH)
  qed
qed

lemma redact_fields_set_cong:
  assumes "\<forall>f \<in> set fs. c \<notin> set f \<and> CHR ''='' \<notin> set f"
    and "c \<noteq> CHR ''=''" and "c \<notin> set M"
    and "CHR ''='' \<notin> set M" and "newline \<notin> set M"
    and "set fs = set gs"
  shows "redact_fields fs M c s = redact_fields gs M c s"
proof (induction "length s" arbitrary: s rule: less_induct)
  case less
  from assms(1,6) have gs: "\<forall>f \<in> set gs. c \<notin> set f \<and> CHR ''='' \<notin> set f" by simp
  show ?case
  proof (cases "c \<in> set s")
    case False
    then show ?thesis by (simp add: redact_fields_no_sep)
  next
    case True
    then obtain chunk rest where s: "s = chunk @ c # rest" and chunk: "c \<notin> set chunk"
      by (auto dest: split_list_first)
    from s have "length rest < length s" by simp
    then have IH: "redact_fields fs M c rest = redact_fields gs M c rest"
      by (rule less.hyps)
    show ?thesis
      unfolding s
      by (simp only: redact_fields_split [OF assms(1-5) chunk]
          redact_fields_split [OF gs assms(2-5) chunk]
          segment_set_cong [OF assms(6)] IH)
  qed
qed

lemma field_end_absent: "\<not> prefix f s \<Longrightarrow> field_end f c s = None"
  by (auto simp: field_end_def dest: append_prefixD)

lemma sub_loop_absent:
  "\<not> sublist f s \<Longrightarrow> sub_loop (field_pattern f c) repl s adv = s"
proof (induction s arbitrary: adv)
  case Nil
  show ?case by (rule sub_loop_field_Nil)
next
  case (Cons x xs)
  then have "\<not> prefix f (x # xs)" and rest: "\<not> sublist f xs"
    by (auto simp: sublist_Cons_right)
  then have "field_end f c (x # xs) = None" by (intro field_end_absent)
  from sub_loop_field_miss [OF this] Cons.IH [OF rest] show ?case by simp
qed

lemma redact_fields_absent:
  "\<forall>f \<in> set fs. \<not> sublist f s \<Longrightarrow> redact_fields fs M c s = s"
  by (induction fs) (simp_all add: sub_loop_absent)

lemma redact_fields_one_field:
  assumes "\<forall>f \<in> set fs. c \<notin> set f \<and> CHR ''='' \<notin> set f"
    and "c \<noteq> CHR ''=''" and "c \<notin> set M"
    and "CHR ''='' \<notin> set M" and "newline \<notin> set M"
    and "f \<in> set fs" and "c \<notin> set v" and "newline \<notin> set v"
  shows "redact_fields fs M c (f @ ''='' @ v @ [c]) = f @ ''='' @ M @ [c]"
proof -
  from assms(1,6) have f: "c \<notin> set f" "CHR ''='' \<notin> set f" by auto
  with assms(2,7) have chunk: "c \<notin> set (f @ ''='' @ v)" by auto
  from assms(8) have "field_here f (f @ ''='' @ v)"
    by (simp add: field_here_def drop_key)
  from segment_hit [OF assms(6) this f(2), of M]
    redact_fields_split [OF assms(1-5) chunk, of "[]"]
  show ?thesis by (simp add: redact_fields_no_sep)
qed

subsection \<open>Plain inputs\<close>

text \<open>
  The inputs on which the substitution is the plain one. \<open>literal_inputs\<close>: no field name
  has a special character, the separator is one character that is no ASCII letter or
  digit and no backslash (so that the backslash the pattern puts before it makes it a
  literal, and the replacement does not end in a backslash), and the marker has no
  backslash (so that the replacement is inserted as it is). \<open>plain_inputs\<close>: moreover
  neither the field names nor the marker contain \<^verbatim>\<open>=\<close> or the separator, the separator
  is not \<^verbatim>\<open>=\<close>, and the marker has no newline.
\<close>

definition literal_inputs :: "string list \<Rightarrow> string \<Rightarrow> char \<Rightarrow> bool" where
  "literal_inputs fs M c =
     (list_all literal_name fs \<and> \<not> is_ascii_alnum c \<and> c \<noteq> backslash \<and> backslash \<notin> set M)"

definition plain_inputs :: "string list \<Rightarrow> string \<Rightarrow> char \<Rightarrow> bool" where
  "plain_inputs fs M c =
     (literal_inputs fs M c
      \<and> list_all (\<lambda>f. c \<notin> set f \<and> CHR ''='' \<notin> set f) fs
      \<and> c \<noteq> CHR ''='' \<and> c \<notin> set M \<and> CHR ''='' \<notin> set M \<and> newline \<notin> set M)"

lemma literal_inputs_filter_datum:
  "literal_inputs fs M c \<Longrightarrow> filter_datum fs M s [c] = Inr (redact_fields fs M c s)"
  by (rule filter_datum_literal) (simp_all add: literal_inputs_def list_all_iff)

lemma plain_inputs_literal: "plain_inputs fs M c \<Longrightarrow> literal_inputs fs M c"
  by (simp add: plain_inputs_def)

lemma plain_inputs_fields:
  "plain_inputs fs M c \<Longrightarrow> \<forall>f \<in> set fs. c \<notin> set f \<and> CHR ''='' \<notin> set f"
  by (simp add: plain_inputs_def list_all_iff)

section \<open>Claims\<close>

text \<open>
  C1 (as amended). When the inputs are plain (\<open>plain_inputs\<close>), \<open>f\<close> is one of the field
  names and the value \<open>v\<close> contains neither the separator nor a newline, redacting the
  message \<open>f=v\<close> followed by the separator gives \<open>f=\<close>, the marker and the separator.
  The value consumed ends at the first separator: of a longer message that starts so,
  the start is rewritten in the same way and the rest is redacted on its own.
\<close>

theorem C1_redacts_one_field:
  assumes "plain_inputs fs M c" and "f \<in> set fs" and "c \<notin> set v" and "newline \<notin> set v"
  shows "filter_datum fs M (f @ ''='' @ v @ [c]) [c] = Inr (f @ ''='' @ M @ [c])
    \<and> (\<exists>r. filter_datum fs M rest [c] = Inr r
          \<and> filter_datum fs M (f @ ''='' @ v @ [c] @ rest) [c] = Inr (f @ ''='' @ M @ [c] @ r))"
proof -
  note fd = literal_inputs_filter_datum [OF plain_inputs_literal [OF assms(1)]]
  note fields = plain_inputs_fields [OF assms(1)]
  from assms(1) have M: "c \<noteq> CHR ''=''" "c \<notin> set M" "CHR ''='' \<notin> set M" "newline \<notin> set M"
    by (simp_all add: plain_inputs_def)
  from fields assms(2) have f: "c \<notin> set f" "CHR ''='' \<notin> set f" by auto
  with M(1) assms(3) have chunk: "c \<notin> set (f @ ''='' @ v)" by auto
  from assms(4) have here: "field_here f (f @ ''='' @ v)"
    by (simp add: field_here_def drop_key)
  have "redact_fields fs M c ((f @ ''='' @ v) @ c # rest)
          = redact_segment fs M (f @ ''='' @ v) @ c # redact_fields fs M c rest"
    by (rule redact_fields_split [OF fields M chunk])
  with segment_hit [OF assms(2) here f(2), of M]
  have "redact_fields fs M c (f @ ''='' @ v @ [c] @ rest)
          = f @ ''='' @ M @ [c] @ redact_fields fs M c rest"
    by simp
  with redact_fields_one_field [OF fields M assms(2,3,4)] show ?thesis
    by (simp add: fd)
qed

text \<open>An instance: the fields \<^verbatim>\<open>name\<close> and \<^verbatim>\<open>email\<close> on \<^verbatim>\<open>name=Bob;\<close>.\<close>

theorem C1_witness:
  "filter_datum [''name'', ''email''] ''***'' ''name=Bob;'' '';'' = Inr ''name=***;''
   \<and> filter_datum [''name'', ''email''] ''***'' ''name=Bob;email=bob@bob.com;'' '';''
       = Inr ''name=***;email=***;''"
proof -
  have "plain_inputs [''name'', ''email''] ''***'' CHR '';''"
    by (simp add: plain_inputs_def literal_inputs_def literal_name_def special_char_def
        is_ascii_alnum_def)
  from C1_redacts_one_field [OF this, of "''name''" "''Bob''" "''email=bob@bob.com;''"]
  have "filter_datum [''name'', ''email''] ''***'' ''name=Bob;'' '';'' = Inr ''name=***;''"
    and "\<exists>r. filter_datum [''name'', ''email''] ''***'' ''email=bob@bob.com;'' '';'' = Inr r
          \<and> filter_datum [''name'', ''email''] ''***'' ''name=Bob;email=bob@bob.com;'' '';''
               = Inr (''name=***;'' @ r)"
    by simp_all
  moreover have "filter_datum [''name'', ''email''] ''***'' ''email=bob@bob.com;'' '';''
      = Inr ''email=***;''"
    by code_simp
  ultimately show ?thesis by auto
qed

text \<open>
  C1 as stated fails: the value \<^verbatim>\<open>a\<close>, newline, \<^verbatim>\<open>b\<close> has no separator in it, and the
  message comes back as it was, since \<^verbatim>\<open>.\<close> does not match a newline.
\<close>

theorem C1_counterexample:
  "CHR '';'' \<notin> set (''a'' @ [newline] @ ''b'')
   \<and> filter_datum [''name''] ''***'' (''name='' @ (''a'' @ [newline] @ ''b'') @ '';'') '';''
       = Inr (''name='' @ (''a'' @ [newline] @ ''b'') @ '';'')
   \<and> filter_datum [''name''] ''***'' (''name='' @ (''a'' @ [newline] @ ''b'') @ '';'') '';''
       \<noteq> Inr (''name='' @ ''***'' @ '';'')"
  by code_simp

text \<open>
  C2 (as amended). When no field name has a special character, the separator is one
  character that is no ASCII letter, digit or backslash, and the marker has no
  backslash (\<open>literal_inputs\<close>): a message in which no field name occurs is returned
  unchanged, and for each single field name that does not occur in the message, the
  substitution made for that field returns the message unchanged.
\<close>

theorem C2_absent_fields_unchanged:
  assumes "literal_inputs fs M c"
  shows "((\<forall>f \<in> set fs. \<not> sublist f m) \<longrightarrow> filter_datum fs M m [c] = Inr m)
    \<and> (\<forall>f \<in> set fs. \<not> sublist f m \<longrightarrow>
          re_sub (f @ ''=(.*?)'' @ [backslash] @ [c]) (f @ ''='' @ M @ [c]) m = Inr m)"
proof (intro conjI ballI impI)
  assume "\<forall>f \<in> set fs. \<not> sublist f m"
  then show "filter_datum fs M m [c] = Inr m"
    by (simp add: literal_inputs_filter_datum [OF assms] redact_fields_absent)
next
  fix f
  assume f: "f \<in> set fs" and absent: "\<not> sublist f m"
  with assms have "literal_name f" "\<not> is_ascii_alnum c" "c \<noteq> backslash" "backslash \<notin> set M"
    by (simp_all add: literal_inputs_def list_all_iff)
  from re_sub_literal [OF this] absent show
    "re_sub (f @ ''=(.*?)'' @ [backslash] @ [c]) (f @ ''='' @ M @ [c]) m = Inr m"
    by (simp add: sub_loop_absent)
qed

text \<open>An instance: neither \<^verbatim>\<open>name\<close> nor \<^verbatim>\<open>email\<close> occurs in \<^verbatim>\<open>ip=10.0.0.1;\<close>.\<close>

theorem C2_witness:
  "filter_datum [''name'', ''email''] ''***'' ''ip=10.0.0.1;'' '';'' = Inr ''ip=10.0.0.1;''"
proof -
  have "literal_inputs [''name'', ''email''] ''***'' CHR '';''"
    by (simp add: literal_inputs_def literal_name_def special_char_def is_ascii_alnum_def)
  from C2_absent_fields_unchanged [OF this, of "''ip=10.0.0.1;''"]
  show ?thesis
    by (simp add: sublist_Cons_right)
qed

text \<open>
  C2 as stated fails: the field name \<^verbatim>\<open>.\<close> does not occur in \<^verbatim>\<open>a=1;\<close>, yet as a
  pattern it matches the key \<^verbatim>\<open>a\<close>, and the message is rewritten.
\<close>

theorem C2_counterexample:
  "\<not> sublist ''.'' ''a=1;''
   \<and> filter_datum [''.''] ''***'' ''a=1;'' '';'' = Inr ''.=***;''
   \<and> filter_datum [''.''] ''***'' ''a=1;'' '';'' \<noteq> Inr ''a=1;''"
proof -
  have "\<not> sublist ''.'' ''a=1;''"
    by (simp add: sublist_Cons_right)
  moreover have "filter_datum [''.''] ''***'' ''a=1;'' '';'' = Inr ''.=***;''"
    by code_simp
  ultimately show ?thesis by simp
qed

text \<open>
  C3 (as amended). \<^verbatim>\<open>filter_datum\<close> is a function of its four arguments (it is embedded
  as one: it reads and writes nothing else), and when no field name has a special
  character, the separator is one character that is no ASCII letter, digit or
  backslash, and the marker has no backslash, it raises no exception: it returns a
  string.
\<close>

theorem C3_returns_a_string:
  assumes "literal_inputs fs M c"
  shows "\<exists>r. filter_datum fs M m [c] = Inr r"
  by (simp add: literal_inputs_filter_datum [OF assms])

text \<open>An instance: the fields \<^verbatim>\<open>password\<close> and \<^verbatim>\<open>ssn\<close>.\<close>

theorem C3_witness:
  "\<exists>r. filter_datum [''password'', ''ssn''] ''***'' ''password=hunter2;ssn=123-45-6789;'' '';''
         = Inr r"
proof -
  have "literal_inputs [''password'', ''ssn''] ''***'' CHR '';''"
    by (simp add: literal_inputs_def literal_name_def special_char_def is_ascii_alnum_def)
  from C3_returns_a_string [OF this] show ?thesis by simp
qed

text \<open>
  C3 as stated fails: the field name \<^verbatim>\<open>*\<close> is a string, and with it the pattern does
  not compile (nothing to repeat): \<^verbatim>\<open>re.error\<close> is raised.
\<close>

theorem C3_counterexample:
  "filter_datum [''*''] ''***'' ''a=1;'' '';'' = Inl ReError"
  by code_simp

text \<open>
  C4 (as amended). When the inputs are plain (\<open>plain_inputs\<close>), redacting the result of
  \<^verbatim>\<open>filter_datum\<close> again with the same arguments gives the same result.
\<close>

theorem C4_idempotent:
  assumes "plain_inputs fs M c"
  shows "\<exists>r. filter_datum fs M m [c] = Inr r \<and> filter_datum fs M r [c] = Inr r"
proof -
  note fd = literal_inputs_filter_datum [OF plain_inputs_literal [OF assms]]
  note fields = plain_inputs_fields [OF assms]
  from assms have M: "c \<noteq> CHR ''=''" "c \<notin> set M" "CHR ''='' \<notin> set M" "newline \<notin> set M"
    by (simp_all add: plain_inputs_def)
  from redact_fields_idem [OF fields M] show ?thesis
    by (simp add: fd)
qed

text \<open>An instance: the first scenario of the specification, redacted twice.\<close>

theorem C4_witness:
  "filter_datum [''name'', ''email''] ''***'' ''name=Bob;email=bob@bob.com;'' '';''
     = Inr ''name=***;email=***;''
   \<and> filter_datum [''name'', ''email''] ''***'' ''name=***;email=***;'' '';''
     = Inr ''name=***;email=***;''"
proof -
  have "plain_inputs [''name'', ''email''] ''***'' CHR '';''"
    by (simp add: plain_inputs_def literal_inputs_def literal_name_def special_char_def
        is_ascii_alnum_def)
  from C4_idempotent [OF this, of "''name=Bob;email=bob@bob.com;''"]
  obtain r where r: "filter_datum [''name'', ''email''] ''***'' ''name=Bob;email=bob@bob.com;'' '';''
      = Inr r" "filter_datum [''name'', ''email''] ''***'' r '';'' = Inr r"
    by auto
  moreover have "filter_datum [''name'', ''email''] ''***'' ''name=Bob;email=bob@bob.com;'' '';''
      = Inr ''name=***;email=***;''"
    by code_simp
  ultimately show ?thesis by simp
qed

text \<open>
  C4 as stated fails, with the marker \<^verbatim>\<open>***\<close> and the separator \<^verbatim>\<open>;\<close> of the
  formatter: the field name \<^verbatim>\<open>a?\<close> matches the key \<^verbatim>\<open>a\<close> of \<^verbatim>\<open>a=1;\<close>, whose value
  \<^verbatim>\<open>1\<close> is not the marker; the key is rewritten to \<^verbatim>\<open>a?\<close>, and on the second pass
  the pattern matches again, from the \<^verbatim>\<open>=\<close> on.
\<close>

theorem C4_counterexample:
  "''1'' \<noteq> ''***''
   \<and> filter_datum [''a?''] ''***'' ''a=1;'' '';'' = Inr ''a?=***;''
   \<and> filter_datum [''a?''] ''***'' ''a?=***;'' '';'' = Inr ''a?a?=***;''"
  by code_simp

text \<open>
  The condition on the marker is needed too: with a marker that contains the
  separator, a second pass changes the result of the first.
\<close>

lemma marker_with_separator_not_idempotent:
  "filter_datum [''a''] '';'' ''a=1;'' '';'' = Inr ''a=;;''
   \<and> filter_datum [''a''] '';'' ''a=;;'' '';'' = Inr ''a=;;;''"
  by code_simp

text \<open>
  C5 (as amended). When the inputs are plain (\<open>plain_inputs\<close>), the two orders of a pair
  of field names give the same result on every message, in particular on a message
  that contains both names.
\<close>

theorem C5_order_independent:
  assumes "plain_inputs [a, b] M c"
  shows "\<exists>r. filter_datum [a, b] M m [c] = Inr r \<and> filter_datum [b, a] M m [c] = Inr r"
proof -
  from assms have swapped: "plain_inputs [b, a] M c"
    by (simp add: plain_inputs_def literal_inputs_def)
  note fields = plain_inputs_fields [OF assms]
  from assms have M: "c \<noteq> CHR ''=''" "c \<notin> set M" "CHR ''='' \<notin> set M" "newline \<notin> set M"
    by (simp_all add: plain_inputs_def)
  have eq: "redact_fields [a, b] M c m = redact_fields [b, a] M c m"
    by (rule redact_fields_set_cong [OF fields M]) auto
  have ab: "filter_datum [a, b] M m [c] = Inr (redact_fields [a, b] M c m)"
    by (rule literal_inputs_filter_datum [OF plain_inputs_literal [OF assms]])
  have ba: "filter_datum [b, a] M m [c] = Inr (redact_fields [b, a] M c m)"
    by (rule literal_inputs_filter_datum [OF plain_inputs_literal [OF swapped]])
  from eq show ?thesis
    unfolding ab ba by simp
qed

text \<open>An instance: the first scenario of the specification, in both orders.\<close>

theorem C5_witness:
  "filter_datum [''name'', ''email''] ''***'' ''name=Bob;email=bob@bob.com;'' '';''
     = Inr ''name=***;email=***;''
   \<and> filter_datum [''email'', ''name''] ''***'' ''name=Bob;email=bob@bob.com;'' '';''
     = Inr ''name=***;email=***;''"
proof -
  have "plain_inputs [''name'', ''email''] ''***'' CHR '';''"
    by (simp add: plain_inputs_def literal_inputs_def literal_name_def special_char_def
        is_ascii_alnum_def)
  from C5_order_independent [OF this, of "''name=Bob;email=bob@bob.com;''"]
  obtain r where r: "filter_datum [''name'', ''email''] ''***'' ''name=Bob;email=bob@bob.com;'' '';''
      = Inr r" "filter_datum [''email'', ''name''] ''***'' ''name=Bob;email=bob@bob.com;'' '';''
      = Inr r"
    by auto
  moreover have "filter_datum [''name'', ''email''] ''***'' ''name=Bob;email=bob@bob.com;'' '';''
      = Inr ''name=***;email=***;''"
    by code_simp
  ultimately show ?thesis by simp
qed

text \<open>
  C5 as stated fails, with the marker \<^verbatim>\<open>***\<close> and the separator \<^verbatim>\<open>;\<close>: the names
  \<^verbatim>\<open>a\<close> and \<^verbatim>\<open>a.x\<close> are distinct and both occur in the message \<^verbatim>\<open>a=x=1;a.x\<close>. As a
  pattern, \<^verbatim>\<open>a.x\<close> matches \<^verbatim>\<open>a=x\<close>; applied first it rewrites the key, applied second
  it finds nothing left to match.
\<close>

theorem C5_counterexample:
  "''a'' \<noteq> ''a.x'' \<and> sublist ''a'' ''a=x=1;a.x'' \<and> sublist ''a.x'' ''a=x=1;a.x''
   \<and> filter_datum [''a'', ''a.x''] ''***'' ''a=x=1;a.x'' '';'' = Inr ''a=***;a.x''
   \<and> filter_datum [''a.x'', ''a''] ''***'' ''a=x=1;a.x'' '';'' = Inr ''a.x=***;a.x''"
proof -
  have "sublist ''a'' ''a=x=1;a.x''" "sublist ''a.x'' ''a=x=1;a.x''"
    by (simp_all add: sublist_Cons_right)
  moreover have "filter_datum [''a'', ''a.x''] ''***'' ''a=x=1;a.x'' '';'' = Inr ''a=***;a.x''"
    by code_simp
  moreover have "filter_datum [''a.x'', ''a''] ''***'' ''a=x=1;a.x'' '';'' = Inr ''a.x=***;a.x''"
    by code_simp
  ultimately show ?thesis by simp
qed

text \<open>
  The condition on the marker is needed too: with literal names and a marker that
  contains one of them followed by \<^verbatim>\<open>=\<close>, the two orders differ.
\<close>

lemma marker_with_field_not_commuting:
  "filter_datum [''a'', ''b''] ''b='' ''a=1;b=2;'' '';'' = Inr ''a=b=b=;b=b=;''
   \<and> filter_datum [''b'', ''a''] ''b='' ''a=1;b=2;'' '';'' = Inr ''a=b=;b=b=;''"
  by code_simp

text \<open>
  C6. For every log record that the standard formatter renders, with the template
  \<^verbatim>\<open>[HOLBERTON] %(name)s %(levelname)s %(asctime)-15s: %(message)s\<close>, to a line,
  \<^verbatim>\<open>RedactingFormatter.format\<close> gives what \<^verbatim>\<open>filter_datum\<close> gives on that line with the
  fields the formatter holds, the marker \<^verbatim>\<open>***\<close> and the separator \<^verbatim>\<open>;\<close>.
\<close>

theorem C6_format_is_redacted_rendering:
  assumes "super_format ''[HOLBERTON] %(name)s %(levelname)s %(asctime)-15s: %(message)s'' record
             = Some line"
  shows "format super_format (RedactingFormatter_init fs) record
           = map_sum RedactorFailed id (filter_datum fs ''***'' line '';'')"
  using assms
  by (simp add: format_def RedactingFormatter_init_def FORMAT_def REDACTION_def SEPARATOR_def
      split: sum.splits)

text \<open>An instance: the second scenario of the specification.\<close>

theorem C6_witness:
  "format (\<lambda>template message. Some (''[HOLBERTON] user_data INFO 2024-01-01 00:00:00,000: '' @ message))
      (RedactingFormatter_init [''password'', ''ssn''])
      ''password=hunter2;ssn=123-45-6789;ip=10.0.0.1;''
     = Inr ''[HOLBERTON] user_data INFO 2024-01-01 00:00:00,000: password=***;ssn=***;ip=10.0.0.1;''"
proof -
  have "filter_datum [''password'', ''ssn''] ''***''
      ''[HOLBERTON] user_data INFO 2024-01-01 00:00:00,000: password=hunter2;ssn=123-45-6789;ip=10.0.0.1;'' '';''
    = Inr ''[HOLBERTON] user_data INFO 2024-01-01 00:00:00,000: password=***;ssn=***;ip=10.0.0.1;''"
    by code_simp
  with C6_format_is_redacted_rendering
    [of "\<lambda>template message. Some (''[HOLBERTON] user_data INFO 2024-01-01 00:00:00,000: '' @ message)"
        "''password=hunter2;ssn=123-45-6789;ip=10.0.0.1;''"
        "''[HOLBERTON] user_data INFO 2024-01-01 00:00:00,000: password=hunter2;ssn=123-45-6789;ip=10.0.0.1;''"
        "[''password'', ''ssn'']"]
  show ?thesis by simp
qed

text \<open>
  C7. In a registry that holds its loggers under their names, \<^verbatim>\<open>get_logger\<close> returns the
  logger named \<^verbatim>\<open>user_data\<close>, with the level \<^verbatim>\<open>INFO\<close> (20), so that a record of any lower
  level is not enabled, with propagation switched off, and with a stream handler whose
  formatter is a \<^verbatim>\<open>RedactingFormatter\<close> made with the fields \<^verbatim>\<open>name\<close>, \<^verbatim>\<open>email\<close>, \<^verbatim>\<open>phone\<close>,
  \<^verbatim>\<open>ssn\<close>, \<^verbatim>\<open>password\<close>; the registry holds this logger.
\<close>

theorem C7_get_logger:
  assumes "registered_by_name loggers"
  shows "name (fst (get_logger loggers)) = ''user_data''
   \<and> level (fst (get_logger loggers)) = INFO \<and> INFO = 20
   \<and> (\<forall>lvl < INFO. \<not> isEnabledFor inherited (fst (get_logger loggers)) lvl)
   \<and> \<not> propagate (fst (get_logger loggers))
   \<and> \<lparr>stream = Stderr,
       formatter = Some (RedactingFormatter_init [''name'', ''email'', ''phone'', ''ssn'', ''password''])\<rparr>
       \<in> set (handlers (fst (get_logger loggers)))
   \<and> snd (get_logger loggers) ''user_data'' = Some (fst (get_logger loggers))"
proof -
  from assms have "name (getLogger loggers ''user_data'') = ''user_data''"
    by (auto simp: registered_by_name_def getLogger_def split: option.splits)
  then show ?thesis
    by (simp add: get_logger_def Let_def INFO_def NOTSET_def PII_FIELDS_def isEnabledFor_def
        getEffectiveLevel_def)
qed

text \<open>
  An instance: the first call in a fresh process, under a root logger at the level
  \<^verbatim>\<open>WARNING\<close> (30). A \<^verbatim>\<open>DEBUG\<close> record is dropped, an \<^verbatim>\<open>INFO\<close> record is not.
\<close>

theorem C7_witness:
  "\<not> isEnabledFor 30 (fst (get_logger Map.empty)) DEBUG
   \<and> isEnabledFor 30 (fst (get_logger Map.empty)) INFO
   \<and> handlers (fst (get_logger Map.empty))
       = [\<lparr>stream = Stderr, formatter = Some (RedactingFormatter_init PII_FIELDS)\<rparr>]"
proof -
  have "registered_by_name Map.empty" by (simp add: registered_by_name_def)
  moreover have "DEBUG < INFO" by (simp add: DEBUG_def INFO_def)
  ultimately have "\<not> isEnabledFor 30 (fst (get_logger Map.empty)) DEBUG"
    using C7_get_logger [of Map.empty 30] by blast
  then show ?thesis
    by (simp add: get_logger_def getLogger_def Let_def INFO_def NOTSET_def isEnabledFor_def
        getEffectiveLevel_def)
qed

text \<open>
  C8. \<^verbatim>\<open>get_db\<close> calls \<^verbatim>\<open>connect\<close> with exactly these values: the host from
  \<^verbatim>\<open>PERSONAL_DATA_DB_HOST\<close>, or \<^verbatim>\<open>localhost\<close> when it is not set; the user from
  \<^verbatim>\<open>PERSONAL_DATA_DB_USERNAME\<close>, or \<^verbatim>\<open>root\<close>; the password from
  \<^verbatim>\<open>PERSONAL_DATA_DB_PASSWORD\<close>, or the empty string; and the database name from
  \<^verbatim>\<open>PERSONAL_DATA_DB_NAME\<close>, for which there is no default: when it is not set,
  \<^verbatim>\<open>None\<close> is passed.
\<close>

theorem C8_get_db_parameters:
  "get_db connect environ
     = connect \<lparr>host = (case environ ''PERSONAL_DATA_DB_HOST'' of
                          None \<Rightarrow> ''localhost'' | Some v \<Rightarrow> v),
                database = environ ''PERSONAL_DATA_DB_NAME'',
                user = (case environ ''PERSONAL_DATA_DB_USERNAME'' of
                          None \<Rightarrow> ''root'' | Some v \<Rightarrow> v),
                password = (case environ ''PERSONAL_DATA_DB_PASSWORD'' of
                          None \<Rightarrow> '''' | Some v \<Rightarrow> v)\<rparr>
   \<and> get_db connect Map.empty
     = connect \<lparr>host = ''localhost'', database = None, user = ''root'', password = ''''\<rparr>"
  by (simp add: get_db_def environ_get_def)

text \<open>
  C9. When the connection is made and the query yields rows of eight values each,
  \<^verbatim>\<open>main\<close> prints for every row exactly the line
  \<^verbatim>\<open>name=<v0>; email=<v1>; phone=<v2>; ssn=<v3>; password=<v4>; ip=<v5>; last_login=<v6>; user_agent=<v7>;\<close>
  with the values as they are written by \<open>str\<close>, and returns: nothing is redacted, the
  password is printed as it is.
\<close>

theorem C9_main_prints_rows_verbatim:
  assumes "get_db connect environ = Inr db"
    and "execute db ''SELECT * FROM users;'' = Inr rows"
    and "\<forall>row \<in> set rows. length row = 8"
  shows "main connect execute str environ out
           = (out @ map (\<lambda>row. ''name='' @ str (row ! 0) @ ''; email='' @ str (row ! 1)
                  @ ''; phone='' @ str (row ! 2) @ ''; ssn='' @ str (row ! 3)
                  @ ''; password='' @ str (row ! 4) @ ''; ip='' @ str (row ! 5)
                  @ ''; last_login='' @ str (row ! 6) @ ''; user_agent='' @ str (row ! 7)
                  @ '';'') rows,
              Returned)"
proof -
  have "\<forall>row \<in> set rows. length row = 8 \<Longrightarrow>
          print_rows str rows out
            = (out @ map (\<lambda>row. ''name='' @ str (row ! 0) @ ''; email='' @ str (row ! 1)
                  @ ''; phone='' @ str (row ! 2) @ ''; ssn='' @ str (row ! 3)
                  @ ''; password='' @ str (row ! 4) @ ''; ip='' @ str (row ! 5)
                  @ ''; last_login='' @ str (row ! 6) @ ''; user_agent='' @ str (row ! 7)
                  @ '';'') rows,
               Returned)" for out :: "string list"
    by (induction rows arbitrary: out) (simp_all add: row_message_def)
  with assms show ?thesis by (simp add: main_def)
qed

text \<open>An instance: the fourth scenario of the specification.\<close>

theorem C9_witness:
  "main (\<lambda>args. Inr ()) (\<lambda>db query. Inr [[''Ann'', ''ann@x.com'', ''555-1234'', ''000-00-0000'',
            ''pw1'', ''1.2.3.4'', ''2024-01-01'', ''curl/8'']]) (\<lambda>v. v) Map.empty []
     = ([''name=Ann; email=ann@x.com; phone=555-1234; ssn=000-00-0000; password=pw1; ip=1.2.3.4; last_login=2024-01-01; user_agent=curl/8;''],
        Returned)"
  using C9_main_prints_rows_verbatim
    [of "\<lambda>args. Inr ()" Map.empty "()"
        "\<lambda>db query. Inr [[''Ann'', ''ann@x.com'', ''555-1234'', ''000-00-0000'',
            ''pw1'', ''1.2.3.4'', ''2024-01-01'', ''curl/8'']]"
        "[[''Ann'', ''ann@x.com'', ''555-1234'', ''000-00-0000'',
            ''pw1'', ''1.2.3.4'', ''2024-01-01'', ''curl/8'']]" "\<lambda>v. v" "[]"]
  by (simp add: get_db_def)

text \<open>
  The line printed for that row is not what the redactor makes of it with the fields,
  the marker and the separator of the logger.
\<close>

lemma printed_row_is_not_redacted:
  "filter_datum PII_FIELDS REDACTION
     ''name=Ann; email=ann@x.com; phone=555-1234; ssn=000-00-0000; password=pw1; ip=1.2.3.4; last_login=2024-01-01; user_agent=curl/8;''
     SEPARATOR
   = Inr ''name=***; email=***; phone=***; ssn=***; password=***; ip=1.2.3.4; last_login=2024-01-01; user_agent=curl/8;''"
  by code_simp

text \<open>
  C10. The substitution finds a watched field name at any position of the message, not
  only where a key starts: with the field \<^verbatim>\<open>mail\<close>, the message \<^verbatim>\<open>email=x;\<close> is
  rewritten inside the key \<^verbatim>\<open>email\<close>, to \<^verbatim>\<open>e\<close> followed by \<^verbatim>\<open>mail=***;\<close>, and so
  does not stay as it was.
\<close>

theorem C10_suffix_of_key_rewritten:
  "filter_datum [''mail''] ''***'' ''email=x;'' '';'' = Inr (''e'' @ ''mail=***;'')
   \<and> filter_datum [''mail''] ''***'' ''email=x;'' '';'' \<noteq> Inr ''email=x;''"
  by code_simp

end
